theory Spec2Isabelle
  imports Main "HOL-Library.Word" "HOL-Library.Sublist"
begin

section \<open>The byte stream and the primitive reads\<close>

text \<open>
  The program is \<^verbatim>\<open>src/output/gguf_read.py\<close>: two functions, \<^verbatim>\<open>rs\<close> (read a
  length-prefixed string) and \<^verbatim>\<open>sv\<close> (skip a value of a given type tag), and a
  module-level walker over the metadata block of a GGUF file.

  The file object \<^verbatim>\<open>f\<close> is a forward-only cursor, so its state is the list of bytes
  that are still unread. \<^verbatim>\<open>f.read(n)\<close> on a binary file does not raise at the end of
  the file: it returns the bytes that are left, at most \<^verbatim>\<open>n\<close> of them. It does raise
  \<^verbatim>\<open>OverflowError\<close> when \<^verbatim>\<open>n\<close> does not fit the signed 64-bit size of the
  interpreter, that is from \<open>2 ^ 63\<close> on; the sizes the program asks for come from
  unsigned 64-bit fields of the file, so they can be that large.
  \<^verbatim>\<open>struct.unpack\<close> raises \<^verbatim>\<open>struct.error\<close> unless its buffer has exactly the
  width of the format (8 bytes for \<^verbatim>\<open><Q\<close>, 4 bytes for \<^verbatim>\<open><I\<close>). Nothing in the
  program catches either exception.

  Python integers are unbounded; every integer of the program is the result of an
  unsigned \<^verbatim>\<open>struct.unpack\<close>, so they are natural numbers. A Python \<^verbatim>\<open>str\<close> is a
  sequence of Unicode code points. What the interpreter can spend (the memory one
  \<^verbatim>\<open>read\<close> may allocate, the depth of its call stack) depends on where the program
  runs and is not part of the model.
\<close>

type_synonym byte = "8 word"
type_synonym stream = "byte list"
type_synonym unicode = "nat list"

datatype error = StructError | OverflowError

definition read :: "stream \<Rightarrow> nat \<Rightarrow> error + (byte list \<times> stream)" where
  "read f n = (if 2 ^ 63 \<le> n then Inl OverflowError else Inr (take n f, drop n f))"

definition le_nat :: "byte list \<Rightarrow> nat" where
  "le_nat bs = foldr (\<lambda>b a. unat b + 256 * a) bs 0"

definition unpack_Q :: "byte list \<Rightarrow> error + nat" where
  "unpack_Q b = (if length b = 8 then Inr (le_nat b) else Inl StructError)"

definition unpack_I :: "byte list \<Rightarrow> error + nat" where
  "unpack_I b = (if length b = 4 then Inr (le_nat b) else Inl StructError)"

subsection \<open>Lossy UTF-8 decoding\<close>

text \<open>
  \<^verbatim>\<open>bytes.decode('utf-8', 'replace')\<close> is the interpreter's decoder, not code of the
  program. It reads one code point at a time; a byte that cannot start a sequence, and
  every maximal prefix of a sequence that is cut short (by an unfit byte or by the end
  of the data), is replaced by one U+FFFD, and decoding resumes at the byte after
  the replaced ones. Overlong forms and the surrogates are rejected by the range of
  the second byte.
\<close>

definition is_cont :: "byte \<Rightarrow> bool" where
  "is_cont b = (0x80 \<le> b \<and> b < 0xC0)"

definition bad2 :: "byte \<Rightarrow> byte \<Rightarrow> bool" where
  "bad2 c c2 =
     (\<not> is_cont c2
      \<or> (c < 0xF0 \<and> (if c2 < 0xA0 then c = 0xE0 else c = 0xED))
      \<or> (0xF0 \<le> c \<and> (if c2 < 0x90 then c = 0xF0 else c = 0xF4)))"

fun decode :: "byte list \<Rightarrow> unicode" where
  "decode [] = []"
| "decode (c # s) =
     (if c < 0x80 then unat c # decode s
      else if c < 0xC2 then 0xFFFD # decode s
      else if c < 0xE0 then
        (case s of [] \<Rightarrow> [0xFFFD]
         | c2 # s2 \<Rightarrow>
             if \<not> is_cont c2 then 0xFFFD # decode s
             else (unat c * 64 + unat c2 - 0x3080) # decode s2)
      else if c < 0xF0 then
        (case s of [] \<Rightarrow> [0xFFFD]
         | c2 # s2 \<Rightarrow>
             if bad2 c c2 then 0xFFFD # decode s
             else (case s2 of [] \<Rightarrow> [0xFFFD]
                   | c3 # s3 \<Rightarrow>
                       if \<not> is_cont c3 then 0xFFFD # decode s2
                       else (unat c * 4096 + unat c2 * 64 + unat c3 - 0xE2080) # decode s3))
      else if c < 0xF5 then
        (case s of [] \<Rightarrow> [0xFFFD]
         | c2 # s2 \<Rightarrow>
             if bad2 c c2 then 0xFFFD # decode s
             else (case s2 of [] \<Rightarrow> [0xFFFD]
                   | c3 # s3 \<Rightarrow>
                       if \<not> is_cont c3 then 0xFFFD # decode s2
                       else (case s3 of [] \<Rightarrow> [0xFFFD]
                             | c4 # s4 \<Rightarrow>
                                 if \<not> is_cont c4 then 0xFFFD # decode s3
                                 else (unat c * 262144 + unat c2 * 4096 + unat c3 * 64
                                         + unat c4 - 0x3C82080) # decode s4)))
      else 0xFFFD # decode s)"

section \<open>\<^verbatim>\<open>rs\<close>: a length-prefixed string\<close>

text \<open>
  \<^verbatim>\<open>
  def rs(f):
      l = struct.unpack('<Q', f.read(8))[0]
      return f.read(l).decode('utf-8', 'replace')
  \<close>
\<close>

definition rs :: "stream \<Rightarrow> error + (unicode \<times> stream)" where
  "rs f =
     (case read f 8 of Inl e \<Rightarrow> Inl e
      | Inr (b, f1) \<Rightarrow>
          (case unpack_Q b of Inl e \<Rightarrow> Inl e
           | Inr l \<Rightarrow>
               (case read f1 l of Inl e \<Rightarrow> Inl e
                | Inr (v, f2) \<Rightarrow> Inr (decode v, f2))))"

section \<open>\<^verbatim>\<open>sv\<close>: skipping a value\<close>

text \<open>
  \<^verbatim>\<open>
  def sv(f, t):
      sizes = {0:1,1:1,2:2,3:2,4:4,5:4,6:4,7:1,9:8,10:8,11:8}
      if t == 8:
          f.read(struct.unpack('<Q', f.read(8))[0])
      elif t == 12:
          at = struct.unpack('<I', f.read(4))[0]
          n = struct.unpack('<Q', f.read(8))[0]
          for _ in range(n):
              sv(f, at)
      elif t in sizes:
          f.read(sizes[t])
  \<close>
  \<open>sv_loop\<close> is the \<^verbatim>\<open>for\<close> loop of the array branch: \<open>n\<close> calls of \<open>sv\<close>, each on
  the stream the previous one left, stopping at the first exception.
\<close>

definition sizes :: "nat \<rightharpoonup> nat" where
  "sizes = [0 \<mapsto> 1, 1 \<mapsto> 1, 2 \<mapsto> 2, 3 \<mapsto> 2, 4 \<mapsto> 4, 5 \<mapsto> 4, 6 \<mapsto> 4, 7 \<mapsto> 1,
            9 \<mapsto> 8, 10 \<mapsto> 8, 11 \<mapsto> 8]"

function sv :: "stream \<Rightarrow> nat \<Rightarrow> error + stream"
  and sv_loop :: "stream \<Rightarrow> nat \<Rightarrow> nat \<Rightarrow> error + stream" where
  "sv f t =
     (if t = 8 then
        (case read f 8 of Inl e \<Rightarrow> Inl e
         | Inr (b, f1) \<Rightarrow>
             (case unpack_Q b of Inl e \<Rightarrow> Inl e
              | Inr l \<Rightarrow>
                  (case read f1 l of Inl e \<Rightarrow> Inl e
                   | Inr (_, f2) \<Rightarrow> Inr f2)))
      else if t = 12 then
        (case read f 4 of Inl e \<Rightarrow> Inl e
         | Inr (b, f1) \<Rightarrow>
             (case unpack_I b of Inl e \<Rightarrow> Inl e
              | Inr at \<Rightarrow>
                  (case read f1 8 of Inl e \<Rightarrow> Inl e
                   | Inr (c, f2) \<Rightarrow>
                       (case unpack_Q c of Inl e \<Rightarrow> Inl e
                        | Inr n \<Rightarrow> sv_loop f2 at n))))
      else if t \<in> dom sizes then
        (case read f (the (sizes t)) of Inl e \<Rightarrow> Inl e
         | Inr (_, f1) \<Rightarrow> Inr f1)
      else Inr f)"
| "sv_loop f at n =
     (if n = 0 then Inr f
      else (case sv f at of Inl e \<Rightarrow> Inl e
            | Inr f1 \<Rightarrow> sv_loop f1 at (n - 1)))"
  by pat_completeness auto

text \<open>
  The loop calls \<open>sv\<close> on the stream an earlier call returned, so termination needs
  that \<open>sv\<close> never returns a longer stream than it was given. That is proved first, on
  the domain of the recursion.
\<close>

lemma read_ok: "n < 2 ^ 63 \<Longrightarrow> read f n = Inr (take n f, drop n f)"
  by (simp add: read_def)

lemma read_4 [simp]: "read f 4 = Inr (take 4 f, drop 4 f)"
  by (simp add: read_def)

lemma read_8 [simp]: "read f 8 = Inr (take 8 f, drop 8 f)"
  by (simp add: read_def)

lemma read_Inr: "read f n = Inr (b, g) \<Longrightarrow> n < 2 ^ 63 \<and> b = take n f \<and> g = drop n f"
  by (auto simp: read_def split: if_splits)

lemma sv_dom_length:
  "sv_sv_loop_dom (Inl (f, t)) \<Longrightarrow> sv f t = Inr g \<Longrightarrow> length g \<le> length f"
  "sv_sv_loop_dom (Inr (f, at, n)) \<Longrightarrow> sv_loop f at n = Inr g \<Longrightarrow> length g \<le> length f"
proof (induction f t and f at n arbitrary: g and g rule: sv_sv_loop.pinduct)
  case (1 f t)
  show ?case
  proof (cases "t = 12")
    case True
    then obtain at n where r: "sv_loop (drop 12 f) at n = Inr g"
      and a: "unpack_I (take 4 f) = Inr at" and n: "unpack_Q (take 8 (drop 4 f)) = Inr n"
      using "1.prems" "1.hyps"
      by (auto simp: sv.psimps split: sum.splits)
    have "length g \<le> length (drop 12 f)"
      using "1.IH"[of "(take 4 f, drop 4 f)" "take 4 f" "drop 4 f" at
          "(take 8 (drop 4 f), drop 12 f)" "take 8 (drop 4 f)" "drop 12 f" n g] True a n r
      by simp
    then show ?thesis by simp
  next
    case False
    then show ?thesis
      using "1.prems" "1.hyps"
      by (auto simp: sv.psimps read_def split: if_splits sum.splits)
  qed
next
  case (2 f at n)
  show ?case
    using "2.prems" "2.IH" "2.hyps"
    by (fastforce simp: sv_loop.psimps split: if_splits sum.splits)
qed

text \<open>
  The measure: the length of the stream first (the array branch has read 12 bytes when
  it enters the loop); at equal length a call of \<open>sv\<close> from the loop is below the loop;
  at equal length the loop with one iteration less is below the loop.
\<close>

lemma sv_dom_all: "All sv_sv_loop_dom"
proof (relation "measures
    [\<lambda>x. case x of Inl (f, t) \<Rightarrow> length f | Inr (f, at, n) \<Rightarrow> length f,
     \<lambda>x. case x of Inl _ \<Rightarrow> 0 | Inr _ \<Rightarrow> 1,
     \<lambda>x. case x of Inl _ \<Rightarrow> 0 | Inr (f, at, n) \<Rightarrow> n]", goal_cases)
  case 1
  show ?case by simp
next
  case 2
  then show ?case
    by (auto simp: read_def unpack_Q_def unpack_I_def split: if_splits)
next
  case 3
  then show ?case by simp
next
  case 4
  then show ?case
    by (auto simp: le_less dest: sv_dom_length(1))
qed

termination sv
  by (rule sv_dom_all)

declare sv.simps [simp del] sv_loop.simps [simp del]

section \<open>The walker\<close>

text \<open>
  \<^verbatim>\<open>
  result = []
  with open(..., 'rb') as f:
      f.read(4); f.read(4)
      struct.unpack('<Q', f.read(8))[0]
      nk = struct.unpack('<Q', f.read(8))[0]
      for _ in range(nk):
          k = rs(f)
          t = struct.unpack('<I', f.read(4))[0]
          if t == 8:
              l = struct.unpack('<Q', f.read(8))[0]
              v = f.read(l).decode('utf-8', 'replace')
              if 'chat_template' in k or 'tokenizer.ggml.model' in k:
                  result.append('[' + k + ']\n' + v)
          else:
              sv(f, t)
  out = '\n---\n'.join(result)
  with open(..., 'w', encoding='utf-8') as f:
      f.write(out)
  print('Done. Keys found:', len(result))
  \<close>
  \<open>walker_entry\<close> is the body of the loop, \<open>walker_loop\<close> the loop, \<open>walker\<close> the
  first \<^verbatim>\<open>with\<close> block; they pass the stream and the list \<^verbatim>\<open>result\<close> along.
  \<open>main\<close> is the whole script: an exception of the walker ends it before the output
  file is opened, otherwise it gives the text written and the number printed.
\<close>

definition str :: "string \<Rightarrow> unicode" where
  "str s = map of_char s"

definition walker_entry :: "stream \<Rightarrow> unicode list \<Rightarrow> error + (stream \<times> unicode list)" where
  "walker_entry f result =
     (case rs f of Inl e \<Rightarrow> Inl e
      | Inr (k, f1) \<Rightarrow>
          (case read f1 4 of Inl e \<Rightarrow> Inl e
           | Inr (b, f2) \<Rightarrow>
               (case unpack_I b of Inl e \<Rightarrow> Inl e
                | Inr t \<Rightarrow>
                    if t = 8 then
                      (case read f2 8 of Inl e \<Rightarrow> Inl e
                       | Inr (c, f3) \<Rightarrow>
                           (case unpack_Q c of Inl e \<Rightarrow> Inl e
                            | Inr l \<Rightarrow>
                                (case read f3 l of Inl e \<Rightarrow> Inl e
                                 | Inr (vb, f4) \<Rightarrow>
                                     if sublist (str ''chat_template'') k
                                        \<or> sublist (str ''tokenizer.ggml.model'') k
                                     then Inr (f4, result @ [str ''['' @ k @ str '']'' @ [10]
                                                               @ decode vb])
                                     else Inr (f4, result))))
                    else
                      (case sv f2 t of Inl e \<Rightarrow> Inl e
                       | Inr f3 \<Rightarrow> Inr (f3, result)))))"

fun walker_loop :: "stream \<Rightarrow> unicode list \<Rightarrow> nat \<Rightarrow> error + (stream \<times> unicode list)" where
  "walker_loop f result 0 = Inr (f, result)"
| "walker_loop f result (Suc n) =
     (case walker_entry f result of Inl e \<Rightarrow> Inl e
      | Inr (f1, result1) \<Rightarrow> walker_loop f1 result1 n)"

definition walker :: "stream \<Rightarrow> error + (stream \<times> unicode list)" where
  "walker f =
     (case read f 4 of Inl e \<Rightarrow> Inl e
      | Inr (_, f1) \<Rightarrow>
          (case read f1 4 of Inl e \<Rightarrow> Inl e
           | Inr (_, f2) \<Rightarrow>
               (case read f2 8 of Inl e \<Rightarrow> Inl e
                | Inr (b, f3) \<Rightarrow>
                    (case unpack_Q b of Inl e \<Rightarrow> Inl e
                     | Inr _ \<Rightarrow>
                         (case read f3 8 of Inl e \<Rightarrow> Inl e
                          | Inr (c, f4) \<Rightarrow>
                              (case unpack_Q c of Inl e \<Rightarrow> Inl e
                               | Inr nk \<Rightarrow> walker_loop f4 [] nk))))))"



section \<open>Well-formed input\<close>

text \<open>
  The properties of the skip routine and of the walker are stated on streams that hold
  what the code expects. \<open>le_bytes w v\<close> is the \<open>w\<close>-byte little-endian encoding of
  \<open>v\<close>. A \<open>wire\<close> value is what \<open>sv\<close> takes for one value: a run of bytes of a fixed
  width, a string body (behind its length), or an array of values of one element
  type (behind the element type and the count). \<open>has_tag t v\<close> says that \<open>v\<close> is laid
  out as \<open>sv\<close> reads tag \<open>t\<close>; a tag outside the table holds no bytes. A string body
  or a key is shorter than \<open>2 ^ 63\<close> bytes, the sizes a \<^verbatim>\<open>read\<close> accepts.
\<close>

fun le_bytes :: "nat \<Rightarrow> nat \<Rightarrow> byte list" where
  "le_bytes 0 v = []"
| "le_bytes (Suc w) v = of_nat (v mod 256) # le_bytes w (v div 256)"

datatype wire = Scalar "byte list" | String "byte list" | Array nat "wire list"

fun encode :: "wire \<Rightarrow> byte list" where
  "encode (Scalar bs) = bs"
| "encode (String bs) = le_bytes 8 (length bs) @ bs"
| "encode (Array at vs) = le_bytes 4 at @ le_bytes 8 (length vs) @ concat (map encode vs)"

fun has_tag :: "nat \<Rightarrow> wire \<Rightarrow> bool" where
  "has_tag t (Scalar bs) =
     (t \<noteq> 8 \<and> t \<noteq> 12 \<and> length bs = (case sizes t of Some w \<Rightarrow> w | None \<Rightarrow> 0))"
| "has_tag t (String bs) = (t = 8 \<and> length bs < 2 ^ 63)"
| "has_tag t (Array at vs) =
     (t = 12 \<and> at < 2 ^ 32 \<and> length vs < 2 ^ 64 \<and> list_all (has_tag at) vs)"

fun depth :: "wire \<Rightarrow> nat" where
  "depth (Scalar bs) = 0"
| "depth (String bs) = 0"
| "depth (Array at vs) = Suc (fold max (map depth vs) 0)"

fun nest :: "nat \<Rightarrow> wire" where
  "nest 0 = Array 4 [Scalar [1, 0, 0, 0], Scalar [2, 0, 0, 0]]"
| "nest (Suc d) = Array 12 [nest d, nest d]"

text \<open>
  A metadata entry on the wire: the key behind its 8-byte length, the 4-byte tag, the
  value. \<open>capture\<close> is what such an entry contributes to the output.
\<close>

type_synonym entry = "byte list \<times> nat \<times> wire"

fun encode_entry :: "entry \<Rightarrow> byte list" where
  "encode_entry (k, t, v) = le_bytes 8 (length k) @ k @ le_bytes 4 t @ encode v"

fun entry_ok :: "entry \<Rightarrow> bool" where
  "entry_ok (k, t, v) = (length k < 2 ^ 63 \<and> t < 2 ^ 32 \<and> has_tag t v)"

fun capture :: "entry \<Rightarrow> unicode list" where
  "capture (k, t, String bs) =
     (if sublist (str ''chat_template'') (decode k) \<or> sublist (str ''tokenizer.ggml.model'') (decode k)
      then [str ''['' @ decode k @ str '']'' @ [10] @ decode bs] else [])"
| "capture (k, t, v) = []"

definition bytes :: "string \<Rightarrow> byte list" where
  "bytes s = map of_char s"

text \<open>
  What the decoder is measured against: \<open>scalar\<close> are the code points that UTF-8
  encodes (up to U+10FFFF, without the surrogates), and \<open>utf8\<close> is the encoding of one
  of them in one to four bytes.
\<close>

definition scalar :: "nat \<Rightarrow> bool" where
  "scalar cp = (cp < 0xD800 \<or> (0xE000 \<le> cp \<and> cp < 0x110000))"

definition utf8 :: "nat \<Rightarrow> byte list" where
  "utf8 cp =
     (if cp < 0x80 then [of_nat cp]
      else if cp < 0x800 then [of_nat (0xC0 + cp div 64), of_nat (0x80 + cp mod 64)]
      else if cp < 0x10000 then
        [of_nat (0xE0 + cp div 4096), of_nat (0x80 + cp div 64 mod 64), of_nat (0x80 + cp mod 64)]
      else
        [of_nat (0xF0 + cp div 262144), of_nat (0x80 + cp div 4096 mod 64),
         of_nat (0x80 + cp div 64 mod 64), of_nat (0x80 + cp mod 64)])"

text \<open>
  Two concrete inputs. \<open>scenario\<close> holds three string entries, of which the first and
  the third have a key that is selected. \<open>truncated_file\<close> is a file whose only entry
  declares a value of 5 bytes and ends after 2 of them.
\<close>

definition scenario :: "entry list" where
  "scenario =
     [(bytes ''tokenizer.ggml.model'', 8, String (bytes ''gpt2'')),
      (bytes ''general.architecture'', 8, String (bytes ''qwen3'')),
      (bytes ''some.chat_template'', 8, String (bytes ''{{messages}}''))]"


section \<open>Basic facts\<close>

subsection \<open>Little-endian integers\<close>

lemma length_le_bytes [simp]: "length (le_bytes w v) = w"
  by (induction w arbitrary: v) simp_all

lemma le_nat_Nil [simp]: "le_nat [] = 0"
  by (simp add: le_nat_def)

lemma le_nat_Cons [simp]: "le_nat (b # bs) = unat b + 256 * le_nat bs"
  by (simp add: le_nat_def)

lemma unat_byte_of_nat: "unat (of_nat (v mod 256) :: byte) = v mod 256"
  by (simp add: unat_of_nat)

lemma le_nat_le_bytes: "v < 256 ^ w \<Longrightarrow> le_nat (le_bytes w v) = v"
proof (induction w arbitrary: v)
  case 0
  then show ?case by simp
next
  case (Suc w)
  from Suc.prems have "v div 256 < 256 ^ w"
    by (simp add: less_mult_imp_div_less mult.commute)
  then have "le_nat (le_bytes w (v div 256)) = v div 256"
    by (rule Suc.IH)
  then show ?case
    by (simp add: unat_byte_of_nat)
qed

lemma le_nat_bound: "le_nat bs < 256 ^ length bs"
proof (induction bs)
  case Nil
  then show ?case by simp
next
  case (Cons b bs)
  have "unat b < 256" using unsigned_less[of b] by simp
  with Cons show ?case by simp
qed

lemma unpack_Q_le_bytes: "v < 2 ^ 64 \<Longrightarrow> unpack_Q (le_bytes 8 v) = Inr v"
  using le_nat_le_bytes[of v 8] by (simp add: unpack_Q_def)

lemma unpack_I_le_bytes: "v < 2 ^ 32 \<Longrightarrow> unpack_I (le_bytes 4 v) = Inr v"
  using le_nat_le_bytes[of v 4] by (simp add: unpack_I_def)

lemma le_bytes_numeral:
  "le_bytes (numeral k) v = of_nat (v mod 256) # le_bytes (pred_numeral k) (v div 256)"
  unfolding numeral_eq_Suc[of k] by (rule le_bytes.simps)

lemma le_bytes_1: "le_bytes 1 v = [of_nat (v mod 256)]"
  using le_bytes.simps(2)[of 0 v] by simp

lemmas le_bytes_eval = le_bytes_numeral le_bytes_1

subsection \<open>The branches of \<open>sv\<close>\<close>

lemma sv_string:
  "sv f 8 =
     (case unpack_Q (take 8 f) of Inl e \<Rightarrow> Inl e
      | Inr l \<Rightarrow> if 2 ^ 63 \<le> l then Inl OverflowError else Inr (drop l (drop 8 f)))"
  by (simp add: sv.simps read_def split: sum.splits)

lemma sv_array:
  "sv f 12 =
     (case unpack_I (take 4 f) of Inl e \<Rightarrow> Inl e
      | Inr at \<Rightarrow>
          (case unpack_Q (take 8 (drop 4 f)) of Inl e \<Rightarrow> Inl e
           | Inr n \<Rightarrow> sv_loop (drop 12 f) at n))"
  by (simp add: sv.simps read_def split: sum.splits)

lemma sizes_dom: "dom sizes = {0, 1, 2, 3, 4, 5, 6, 7, 9, 10, 11}"
  by (auto simp: sizes_def)

lemma sv_fixed: "sizes t = Some w \<Longrightarrow> sv f t = Inr (drop w f)"
  by (subst sv.simps) (auto simp: read_def sizes_def split: if_splits)

lemma sv_unknown: "sizes t = None \<Longrightarrow> t \<noteq> 8 \<Longrightarrow> t \<noteq> 12 \<Longrightarrow> sv f t = Inr f"
  by (subst sv.simps) (auto simp: read_def)

lemma sv_loop_0 [simp]: "sv_loop f at 0 = Inr f"
  by (simp add: sv_loop.simps)

lemma sv_loop_Suc:
  "sv_loop f at (Suc n) = (case sv f at of Inl e \<Rightarrow> Inl e | Inr f1 \<Rightarrow> sv_loop f1 at n)"
  by (subst sv_loop.simps) (simp split: sum.splits)

lemma skips_list:
  "(\<And>v rest. v \<in> set vs \<Longrightarrow> sv (encode v @ rest) at = Inr rest)
   \<Longrightarrow> sv_loop (concat (map encode vs) @ rest) at (length vs) = Inr rest"
  by (induction vs) (simp_all add: sv_loop_Suc)

lemma skips_encoded: "has_tag t v \<Longrightarrow> sv (encode v @ rest) t = Inr rest"
proof (induction v arbitrary: t rest)
  case (Scalar bs)
  then show ?case
    by (cases "sizes t") (simp_all add: sv_fixed sv_unknown)
next
  case (String bs)
  then show ?case
    by (simp add: sv_string unpack_Q_le_bytes)
next
  case (Array at vs)
  have "sv_loop (concat (map encode vs) @ rest) at (length vs) = Inr rest"
    using Array by (intro skips_list) (auto simp: list_all_iff)
  with Array.prems show ?case
    by (simp add: sv_array unpack_I_le_bytes unpack_Q_le_bytes)
qed



lemma sv_no_call: "t \<noteq> 12 \<Longrightarrow> \<not> sv_sv_loop_rel y (Inl (f, t))"
  by (auto elim: sv_sv_loop_rel.cases)

lemma sv_array_call:
  "sv_sv_loop_rel y (Inl (f, t)) \<Longrightarrow> \<exists>g at n. y = Inr (g, at, n) \<and> length g + 12 = length f"
  by (erule sv_sv_loop_rel.cases) (auto simp: read_def unpack_I_def unpack_Q_def split: if_splits)

lemma sv_loop_funpow:
  "sv_loop f at n = ((\<lambda>r. case r of Inl e \<Rightarrow> Inl e | Inr g \<Rightarrow> sv g at) ^^ n) (Inr f)"
proof (induction n arbitrary: f)
  case 0
  show ?case by simp
next
  case (Suc n)
  have err: "((\<lambda>r. case r of Inl e \<Rightarrow> Inl e | Inr g \<Rightarrow> sv g at) ^^ m) (Inl e) = Inl e" for m e
    by (induction m) simp_all
  show ?case
    by (simp add: sv_loop_Suc funpow_swap1 Suc.IH err split: sum.splits)
qed

lemma nest_ok: "has_tag 12 (nest d)"
  by (induction d) (simp_all add: sizes_def)

lemma nest_depth: "depth (nest d) = Suc d"
  by (induction d) simp_all

lemma sv_total_length: "sv f t = Inr g \<Longrightarrow> length g \<le> length f"
  using sv_dom_all sv_dom_length(1) by blast


subsection \<open>The walker on well-formed entries\<close>

lemma rs_encoded:
  "length k < 2 ^ 63 \<Longrightarrow> rs (le_bytes 8 (length k) @ k @ rest) = Inr (decode k, rest)"
  by (simp add: rs_def read_def unpack_Q_le_bytes)

lemma walker_entry_encoded:
  assumes "entry_ok e"
  shows "walker_entry (encode_entry e @ rest) result = Inr (rest, result @ capture e)"
proof -
  obtain k t v where e: "e = (k, t, v)" by (cases e)
  from assms e have k: "length k < 2 ^ 63" and t: "t < 2 ^ 32" and v: "has_tag t v"
    by simp_all
  have r: "rs (encode_entry e @ rest) = Inr (decode k, le_bytes 4 t @ encode v @ rest)"
    using rs_encoded[OF k, of "le_bytes 4 t @ encode v @ rest"] e by simp
  show ?thesis
  proof (cases v)
    case (String bs)
    with v have "t = 8" and "length bs < 2 ^ 63" by simp_all
    then show ?thesis
      using r e String t
      by (simp add: walker_entry_def read_def unpack_I_le_bytes unpack_Q_le_bytes)
  next
    case (Scalar bs)
    with v have "t \<noteq> 8" by simp
    then show ?thesis
      using r e Scalar t skips_encoded[OF v, of rest]
      by (simp add: walker_entry_def read_def unpack_I_le_bytes)
  next
    case (Array at vs)
    with v have "t \<noteq> 8" by simp
    then show ?thesis
      using r e Array t skips_encoded[OF v, of rest]
      by (simp add: walker_entry_def read_def unpack_I_le_bytes)
  qed
qed

lemma walker_loop_encoded:
  "list_all entry_ok es \<Longrightarrow>
   walker_loop (concat (map encode_entry es) @ rest) result (length es)
     = Inr (rest, result @ concat (map capture es))"
proof (induction es arbitrary: result)
  case Nil
  then show ?case by simp
next
  case (Cons e es)
  then show ?case
    using walker_entry_encoded[of e "concat (map encode_entry es) @ rest" result]
    by simp
qed

lemma walker_encoded:
  assumes "length hdr = 16" and "length es < 2 ^ 64" and "list_all entry_ok es"
  shows "walker (hdr @ le_bytes 8 (length es) @ concat (map encode_entry es) @ rest)
           = Inr (rest, concat (map capture es))"
proof -
  have n: "le_nat (le_bytes 8 (length es)) = length es"
    using assms(2) by (intro le_nat_le_bytes) simp
  show ?thesis
    using assms(1) n walker_loop_encoded[OF assms(3), of rest "[]"]
    by (simp add: walker_def read_def unpack_Q_def)
qed

lemma walker_loop_funpow:
  "walker_loop f r n =
     ((\<lambda>x. case x of Inl e \<Rightarrow> Inl e | Inr (g, q) \<Rightarrow> walker_entry g q) ^^ n) (Inr (f, r))"
proof (induction n arbitrary: f r)
  case 0
  show ?case by simp
next
  case (Suc n)
  have err: "((\<lambda>x. case x of Inl e \<Rightarrow> Inl e | Inr (g, q) \<Rightarrow> walker_entry g q) ^^ m) (Inl e) = Inl e" for m e
    by (induction m) simp_all
  show ?case
    by (simp add: funpow_swap1 Suc.IH err split: sum.splits)
qed


lemma walker_header:
  "length hdr = 16 \<Longrightarrow> length c = 8 \<Longrightarrow> walker (hdr @ c @ f) = walker_loop f [] (le_nat c)"
  by (simp add: walker_def read_def unpack_Q_def)

lemma walker_entry_string:
  assumes "rs f = Inr (k, f1)" and "unpack_I (take 4 f1) = Inr 8"
  shows "walker_entry f result =
           (case unpack_Q (take 8 (drop 4 f1)) of Inl e \<Rightarrow> Inl e
            | Inr l \<Rightarrow>
                if 2 ^ 63 \<le> l then Inl OverflowError
                else Inr (drop l (drop 12 f1),
                     if sublist (str ''chat_template'') k \<or> sublist (str ''tokenizer.ggml.model'') k
                     then result @ [str ''['' @ k @ str '']'' @ [10] @ decode (take l (drop 12 f1))]
                     else result))"
  using assms by (simp add: walker_entry_def read_def split: sum.splits)

lemma walker_entry_other:
  assumes "rs f = Inr (k, f1)" and "unpack_I (take 4 f1) = Inr t" and "t \<noteq> 8"
  shows "walker_entry f result =
           (case sv (drop 4 f1) t of Inl e \<Rightarrow> Inl e | Inr g \<Rightarrow> Inr (g, result))"
  using assms by (simp add: walker_entry_def read_def split: sum.splits)

lemma walker_entry_cases:
  assumes "walker_entry f result = Inr (g, result')"
  obtains k f1 t where "rs f = Inr (k, f1)" and "unpack_I (take 4 f1) = Inr t"
  using assms by (auto simp: walker_entry_def read_def split: sum.splits prod.splits)

lemma walker_entry_prefix:
  assumes "walker_entry f result = Inr (g, result')"
  shows "prefix result result'"
proof -
  from assms obtain k f1 t where a: "rs f = Inr (k, f1)" and b: "unpack_I (take 4 f1) = Inr t"
    by (rule walker_entry_cases)
  show ?thesis
  proof (cases "t = 8")
    case True
    with assms walker_entry_string[OF a b[unfolded True], of result] show ?thesis
      by (auto split: sum.splits if_splits)
  next
    case False
    with assms walker_entry_other[OF a b False, of result] show ?thesis
      by (auto split: sum.splits)
  qed
qed

lemma walker_loop_prefix:
  "walker_loop f result n = Inr (g, result') \<Longrightarrow> prefix result result'"
proof (induction n arbitrary: f result)
  case 0
  then show ?case by simp
next
  case (Suc n)
  then obtain f1 r1 where e: "walker_entry f result = Inr (f1, r1)"
    and l: "walker_loop f1 r1 n = Inr (g, result')"
    by (auto split: sum.splits)
  from walker_entry_prefix[OF e] Suc.IH[OF l] show ?case
    by (rule prefix_order.trans)
qed

lemma walker_entry_changes:
  assumes "walker_entry f result = Inr (g, result')" and "result' \<noteq> result"
  shows "\<exists>k f1. rs f = Inr (k, f1) \<and> unpack_I (take 4 f1) = Inr 8
           \<and> (sublist (str ''chat_template'') k \<or> sublist (str ''tokenizer.ggml.model'') k)
           \<and> (\<exists>b. result' = result @ [b])"
proof -
  from assms(1) obtain k f1 t where a: "rs f = Inr (k, f1)" and b: "unpack_I (take 4 f1) = Inr t"
    by (rule walker_entry_cases)
  show ?thesis
  proof (cases "t = 8")
    case True
    with assms a b walker_entry_string[OF a b[unfolded True], of result] show ?thesis
      by (auto split: sum.splits if_splits)
  next
    case False
    with assms walker_entry_other[OF a b False, of result] show ?thesis
      by (auto split: sum.splits)
  qed
qed

subsection \<open>The decoder on bytes that start no sequence\<close>

lemma decode_invalid_start:
  "(0x80 \<le> c \<and> c < 0xC2) \<or> 0xF5 \<le> c \<Longrightarrow> decode (c # s) = 0xFFFD # decode s"
  by (auto simp: word_le_nat_alt word_less_nat_alt)

lemma decode_lone_byte: "0x80 \<le> c \<Longrightarrow> decode [c] = [0xFFFD]"
  by (auto simp: word_le_nat_alt word_less_nat_alt)

subsection \<open>The decoder on encoded code points\<close>

lemma unat_byte: "n < 256 \<Longrightarrow> unat (of_nat n :: byte) = n"
  by (simp add: unat_of_nat)

lemma decode_1:
  assumes "cp < 0x80"
  shows "decode (of_nat cp # s) = cp # decode s"
proof -
  have u: "unat (of_nat cp :: byte) = cp"
    using assms by (intro unat_byte) simp
  show ?thesis
    using assms by (simp add: word_less_nat_alt u)
qed

lemma decode_2:
  assumes "0x80 \<le> cp" and "cp < 0x800"
  shows "decode (of_nat (0xC0 + cp div 64) # of_nat (0x80 + cp mod 64) # s) = cp # decode s"
proof -
  define a where "a = 0xC0 + cp div 64"
  define b where "b = 0x80 + cp mod 64"
  have ab: "0xC2 \<le> a" "a < 0xE0" "0x80 \<le> b" "b < 0xC0"
    using assms by (simp_all add: a_def b_def)
  have u: "unat (of_nat a :: byte) = a" "unat (of_nat b :: byte) = b"
    using ab by (simp_all add: unat_byte)
  have v: "a * 64 + b - 0x3080 = cp"
    unfolding a_def b_def by simp
  show ?thesis
    unfolding a_def[symmetric] b_def[symmetric]
    using ab v by (simp add: word_less_nat_alt word_le_nat_alt u is_cont_def)
qed

lemma split_4096: "(cp::nat) mod 4096 = 64 * (cp div 64 mod 64) + cp mod 64"
  using mod_mult2_eq[of cp 64 64] by simp

lemma split_262144: "(cp::nat) mod 262144 = 4096 * (cp div 4096 mod 64) + cp mod 4096"
  using mod_mult2_eq[of cp 4096 64] by simp

lemma decode_3:
  assumes "0x800 \<le> cp" and "cp < 0x10000" and "scalar cp"
  shows "decode (of_nat (0xE0 + cp div 4096) # of_nat (0x80 + cp div 64 mod 64)
                   # of_nat (0x80 + cp mod 64) # s) = cp # decode s"
proof -
  define x where "x = cp div 4096"
  define y where "y = cp div 64 mod 64"
  define z where "z = cp mod 64"
  have "4096 * (cp div 4096) + (64 * (cp div 64 mod 64) + cp mod 64)
          = 4096 * (cp div 4096) + cp mod 4096"
    by (simp only: split_4096)
  also have "\<dots> = cp"
    by (rule mult_div_mod_eq)
  finally have cp: "4096 * x + (64 * y + z) = cp"
    unfolding x_def y_def z_def .
  have xyz: "x < 16" "y < 64" "z < 64"
    using assms(2) by (simp_all add: x_def y_def z_def)
  have lo: "32 \<le> y" if "x = 0"
    using that cp xyz assms(1) by simp
  have hi: "y < 32" if "x = 13"
    using that cp xyz assms(3) by (simp add: scalar_def)
  define a where "a = 0xE0 + cp div 4096"
  define b where "b = 0x80 + cp div 64 mod 64"
  define c where "c = 0x80 + cp mod 64"
  have abc: "a = 0xE0 + x" "b = 0x80 + y" "c = 0x80 + z"
    by (simp_all add: a_def b_def c_def x_def y_def z_def)
  have r: "0xE0 \<le> a" "a < 0xF0" "0x80 \<le> b" "b < 0xC0" "0x80 \<le> c" "c < 0xC0"
    using xyz abc by simp_all
  have lo': "0xA0 \<le> b" if "a = 0xE0"
    using that lo abc by simp
  have hi': "b < 0xA0" if "a = 0xED"
    using that hi abc by simp
  have v: "a * 4096 + b * 64 + c - 0xE2080 = cp"
    using cp abc by simp
  have u: "unat (of_nat a :: byte) = a" "unat (of_nat b :: byte) = b" "unat (of_nat c :: byte) = c"
    using r by (simp_all add: unat_byte)
  have e: "((of_nat a :: byte) = 0xE0) = (a = 0xE0)" "((of_nat a :: byte) = 0xED) = (a = 0xED)"
    using u(1) by (auto simp: word_eq_iff_unsigned[where ?'a = nat])
  have n: "\<not> bad2 (of_nat a) (of_nat b)"
    using lo' hi' r
    by (auto simp: bad2_def is_cont_def word_less_nat_alt word_le_nat_alt e u)
  have l: "\<not> (of_nat a :: byte) < 0x80" "\<not> (of_nat a :: byte) < 0xC2"
    "\<not> (of_nat a :: byte) < 0xE0" "(of_nat a :: byte) < 0xF0" "is_cont (of_nat c)"
    using r by (simp_all add: word_less_nat_alt word_le_nat_alt is_cont_def u)
  show ?thesis
    unfolding a_def[symmetric] b_def[symmetric] c_def[symmetric]
    using n l v by (simp add: u)
qed

lemma decode_4:
  assumes "0x10000 \<le> cp" and "cp < 0x110000"
  shows "decode (of_nat (0xF0 + cp div 262144) # of_nat (0x80 + cp div 4096 mod 64)
                   # of_nat (0x80 + cp div 64 mod 64) # of_nat (0x80 + cp mod 64) # s)
           = cp # decode s"
proof -
  define x where "x = cp div 262144"
  define y where "y = cp div 4096 mod 64"
  define z where "z = cp div 64 mod 64"
  define w where "w = cp mod 64"
  have "262144 * (cp div 262144)
          + (4096 * (cp div 4096 mod 64) + (64 * (cp div 64 mod 64) + cp mod 64))
          = 262144 * (cp div 262144) + (4096 * (cp div 4096 mod 64) + cp mod 4096)"
    by (simp only: split_4096)
  also have "\<dots> = 262144 * (cp div 262144) + cp mod 262144"
    by (simp only: split_262144)
  also have "\<dots> = cp"
    by (rule mult_div_mod_eq)
  finally have cp: "262144 * x + (4096 * y + (64 * z + w)) = cp"
    unfolding x_def y_def z_def w_def .
  have "cp div 262144 < 5"
    using assms(2) by (simp add: less_mult_imp_div_less)
  then have xyzw: "x < 5" "y < 64" "z < 64" "w < 64"
    by (simp_all add: x_def y_def z_def w_def)
  have lo: "16 \<le> y" if "x = 0"
    using that cp xyzw assms(1) by simp
  have hi: "y < 16" if "x = 4"
    using that cp xyzw assms(2) by simp
  define a where "a = 0xF0 + cp div 262144"
  define b where "b = 0x80 + cp div 4096 mod 64"
  define c where "c = 0x80 + cp div 64 mod 64"
  define d where "d = 0x80 + cp mod 64"
  have abcd: "a = 0xF0 + x" "b = 0x80 + y" "c = 0x80 + z" "d = 0x80 + w"
    by (simp_all add: a_def b_def c_def d_def x_def y_def z_def w_def)
  have r: "0xF0 \<le> a" "a < 0xF5" "0x80 \<le> b" "b < 0xC0" "0x80 \<le> c" "c < 0xC0"
    "0x80 \<le> d" "d < 0xC0"
    using xyzw abcd by simp_all
  have lo': "0x90 \<le> b" if "a = 0xF0"
    using that lo abcd by simp
  have hi': "b < 0x90" if "a = 0xF4"
    using that hi abcd by simp
  have v: "a * 262144 + b * 4096 + c * 64 + d - 0x3C82080 = cp"
    using cp abcd by simp
  have u: "unat (of_nat a :: byte) = a" "unat (of_nat b :: byte) = b" "unat (of_nat c :: byte) = c"
    "unat (of_nat d :: byte) = d"
    using r by (simp_all add: unat_byte)
  have e: "((of_nat a :: byte) = 0xF0) = (a = 0xF0)" "((of_nat a :: byte) = 0xF4) = (a = 0xF4)"
    using u(1) by (auto simp: word_eq_iff_unsigned[where ?'a = nat])
  have n: "\<not> bad2 (of_nat a) (of_nat b)"
    using lo' hi' r
    by (auto simp: bad2_def is_cont_def word_less_nat_alt word_le_nat_alt e u)
  have l: "\<not> (of_nat a :: byte) < 0x80" "\<not> (of_nat a :: byte) < 0xC2"
    "\<not> (of_nat a :: byte) < 0xE0" "\<not> (of_nat a :: byte) < 0xF0" "(of_nat a :: byte) < 0xF5"
    "is_cont (of_nat c)" "is_cont (of_nat d)"
    using r by (simp_all add: word_less_nat_alt word_le_nat_alt is_cont_def u)
  show ?thesis
    unfolding a_def[symmetric] b_def[symmetric] c_def[symmetric] d_def[symmetric]
    using n l v by (simp add: u)
qed

lemma decode_utf8:
  assumes "scalar cp"
  shows "decode (utf8 cp @ s) = cp # decode s"
proof -
  from assms have "cp < 0x110000"
    unfolding scalar_def by linarith
  then consider "cp < 0x80" | "0x80 \<le> cp" "cp < 0x800" | "0x800 \<le> cp" "cp < 0x10000"
    | "0x10000 \<le> cp" "cp < 0x110000"
    by linarith
  then show ?thesis
  proof cases
    case 1
    then show ?thesis
      using decode_1[of cp s] by (simp add: utf8_def)
  next
    case 2
    then show ?thesis
      using decode_2[of cp s] by (simp add: utf8_def)
  next
    case 3
    then show ?thesis
      using decode_3[of cp s] assms by (simp add: utf8_def)
  next
    case 4
    then show ?thesis
      using decode_4[of cp s] by (simp add: utf8_def)
  qed
qed

lemma decode_utf8_string: "list_all scalar cps \<Longrightarrow> decode (concat (map utf8 cps)) = cps"
  by (induction cps) (simp_all add: decode_utf8)

subsection \<open>The decoder on sequences that are cut short\<close>

lemma decode_broken_2:
  "0xC2 \<le> c \<Longrightarrow> c < 0xE0 \<Longrightarrow> \<not> is_cont c2 \<Longrightarrow> decode (c # c2 # s) = 0xFFFD # decode (c2 # s)"
  by (auto simp: word_le_nat_alt word_less_nat_alt)

lemma decode_broken_lead:
  "0xE0 \<le> c \<Longrightarrow> c < 0xF5 \<Longrightarrow> bad2 c c2 \<Longrightarrow> decode (c # c2 # s) = 0xFFFD # decode (c2 # s)"
  by (auto simp: word_le_nat_alt word_less_nat_alt)

lemma decode_broken_3:
  "0xE0 \<le> c \<Longrightarrow> c < 0xF5 \<Longrightarrow> \<not> bad2 c c2 \<Longrightarrow> \<not> is_cont c3
   \<Longrightarrow> decode (c # c2 # c3 # s) = 0xFFFD # decode (c3 # s)"
  by (auto simp: word_le_nat_alt word_less_nat_alt)

lemma decode_broken_4:
  "0xF0 \<le> c \<Longrightarrow> c < 0xF5 \<Longrightarrow> \<not> bad2 c c2 \<Longrightarrow> is_cont c3 \<Longrightarrow> \<not> is_cont c4
   \<Longrightarrow> decode (c # c2 # c3 # c4 # s) = 0xFFFD # decode (c4 # s)"
  by (auto simp: word_le_nat_alt word_less_nat_alt)

lemma decode_cut_2:
  "0xE0 \<le> c \<Longrightarrow> c < 0xF5 \<Longrightarrow> \<not> bad2 c c2 \<Longrightarrow> decode [c, c2] = [0xFFFD]"
  by (auto simp: word_le_nat_alt word_less_nat_alt)

lemma decode_cut_3:
  "0xF0 \<le> c \<Longrightarrow> c < 0xF5 \<Longrightarrow> \<not> bad2 c c2 \<Longrightarrow> is_cont c3 \<Longrightarrow> decode [c, c2, c3] = [0xFFFD]"
  by (auto simp: word_le_nat_alt word_less_nat_alt)

subsection \<open>Where the pass fails\<close>

lemma rs_eq:
  "rs f =
     (if length f < 8 then Inl StructError
      else if 2 ^ 63 \<le> le_nat (take 8 f) then Inl OverflowError
      else Inr (decode (take (le_nat (take 8 f)) (drop 8 f)), drop (8 + le_nat (take 8 f)) f))"
  by (auto simp: rs_def read_def unpack_Q_def add.commute)

lemma sv_string_eq:
  "sv f 8 =
     (if length f < 8 then Inl StructError
      else if 2 ^ 63 \<le> le_nat (take 8 f) then Inl OverflowError
      else Inr (drop (8 + le_nat (take 8 f)) f))"
  by (auto simp: sv_string unpack_Q_def add.commute)





section \<open>The skip routine\<close>

text \<open>
  C2. Tag 9 is a key of \<open>sizes\<close> with width 8 and tag 12 is not a key: \<open>sv\<close> skips 8
  bytes for tag 9 without any recursive call, and for tag 12 it reads a 4-byte element
  type and an 8-byte count and runs the loop. On the encoding of an array, tag 12 ends
  behind the array while tag 9 ends 8 bytes into it.
\<close>

theorem sv_tag_12_is_array:
  "sizes 9 = Some 8 \<and> sizes 12 = None
   \<and> sv f 9 = Inr (drop 8 f)
   \<and> (\<forall>y. \<not> sv_sv_loop_rel y (Inl (f, 9)))
   \<and> sv f 12 =
       (case unpack_I (take 4 f) of Inl e \<Rightarrow> Inl e
        | Inr at \<Rightarrow>
            (case unpack_Q (take 8 (drop 4 f)) of Inl e \<Rightarrow> Inl e
             | Inr n \<Rightarrow> sv_loop (drop 12 f) at n))
   \<and> (has_tag 12 (Array at vs) \<longrightarrow>
        sv (encode (Array at vs) @ rest) 12 = Inr rest
        \<and> sv (encode (Array at vs) @ rest) 9 = Inr (drop 4 (le_bytes 8 (length vs)) @ concat (map encode vs) @ rest))"
proof -
  have s: "sizes 9 = Some 8" "sizes 12 = None"
    by (simp_all add: sizes_def)
  have "sv (encode (Array at vs) @ rest) 9
          = Inr (drop 4 (le_bytes 8 (length vs)) @ concat (map encode vs) @ rest)"
    by (simp add: sv_fixed[OF s(1)])
  then show ?thesis
    using s sv_fixed[OF s(1)] sv_no_call[of 9] sv_array[of f] skips_encoded[of 12 "Array at vs" rest]
    by simp
qed

theorem sv_tag_12_is_array_witness:
  "has_tag 12 (Array 4 [Scalar [1, 0, 0, 0], Scalar [2, 0, 0, 0], Scalar [3, 0, 0, 0]])
   \<and> encode (Array 4 [Scalar [1, 0, 0, 0], Scalar [2, 0, 0, 0], Scalar [3, 0, 0, 0]])
       = [4, 0, 0, 0, 3, 0, 0, 0, 0, 0, 0, 0, 1, 0, 0, 0, 2, 0, 0, 0, 3, 0, 0, 0]
   \<and> sv ([4, 0, 0, 0, 3, 0, 0, 0, 0, 0, 0, 0, 1, 0, 0, 0, 2, 0, 0, 0, 3, 0, 0, 0] @ [7, 7]) 12
       = Inr [7, 7]
   \<and> sv ([4, 0, 0, 0, 3, 0, 0, 0, 0, 0, 0, 0, 1, 0, 0, 0, 2, 0, 0, 0, 3, 0, 0, 0] @ [7, 7]) 9
       = Inr [0, 0, 0, 0, 1, 0, 0, 0, 2, 0, 0, 0, 3, 0, 0, 0, 7, 7]"
  using sv_tag_12_is_array[of "[]" 4 "[Scalar [1, 0, 0, 0], Scalar [2, 0, 0, 0], Scalar [3, 0, 0, 0]]" "[7, 7]"]
  by (simp add: sizes_def le_bytes_eval)

text \<open>
  C3. On tag 12 \<open>sv\<close> takes 4 bytes as the element type and the next 8 bytes as the
  count and continues with the loop on the rest; the loop with count \<open>n\<close> is the
  \<open>n\<close>-fold repetition of the step "call \<open>sv\<close> with the element type on the stream the
  previous call left" (an exception ends it), for every \<open>n\<close>. On the encoding of any
  well-formed array, however deep its nesting, \<open>sv\<close> ends right behind the array;
  \<open>nest d\<close> is a well-formed array of depth \<open>d + 1\<close>, so there is one of every depth.
\<close>

theorem sv_array_recursion:
  "(length a = 4 \<and> length c = 8 \<longrightarrow> sv (a @ c @ f) 12 = sv_loop f (le_nat a) (le_nat c))
   \<and> sv_loop f at n = ((\<lambda>r. case r of Inl e \<Rightarrow> Inl e | Inr g \<Rightarrow> sv g at) ^^ n) (Inr f)
   \<and> (has_tag 12 v \<longrightarrow> sv (encode v @ f) 12 = Inr f)
   \<and> has_tag 12 (nest d) \<and> depth (nest d) = Suc d"
proof -
  have "sv (a @ c @ f) 12 = sv_loop f (le_nat a) (le_nat c)" if "length a = 4" "length c = 8"
    using that by (simp add: sv_array unpack_I_def unpack_Q_def)
  then show ?thesis
    using sv_loop_funpow[of f at n] skips_encoded[of 12 v f] nest_ok[of d] nest_depth[of d]
    by blast
qed

theorem sv_array_recursion_witness:
  "has_tag 12 (nest 4) \<and> depth (nest 4) = 5 \<and> sv (encode (nest 4) @ [7]) 12 = Inr [7]
   \<and> sv ([8, 0, 0, 0] @ [0, 0, 0, 0, 0, 0, 0, 0] @ [7]) 12 = Inr [7]"
  using sv_array_recursion[of "[8, 0, 0, 0]" "[0, 0, 0, 0, 0, 0, 0, 0]" "[7]" 8 0 "nest 4" 4]
  by simp

text \<open>
  C4. For the scalar tags with the widths 1 (tags 0, 1, 7), 2 (tags 2, 3), 4 (tags 4, 5,
  6) and 8 (tags 10, 11), \<open>sv\<close> is one \<^verbatim>\<open>read\<close> of the width: it drops \<open>w\<close> bytes
  from the stream, so on a stream that holds the \<open>w\<close> bytes of the value the cursor
  ends right behind them; and no recursive call is made from such a call (the call
  relation of the recursion has nothing below it).
\<close>

theorem sv_fixed_width:
  assumes "(t, w) \<in> {(0, 1), (1, 1), (7, 1), (2, 2), (3, 2), (4, 4), (5, 4), (6, 4), (10, 8), (11, 8)}"
  shows "sv f t = Inr (drop w f)
         \<and> (length v = w \<longrightarrow> sv (v @ rest) t = Inr rest)
         \<and> (\<forall>y. \<not> sv_sv_loop_rel y (Inl (f, t)))"
proof -
  from assms have s: "sizes t = Some w" and t: "t \<noteq> 12"
    by (auto simp: sizes_def)
  show ?thesis
    using sv_fixed[OF s] sv_no_call[OF t] by simp
qed

theorem sv_fixed_width_witness:
  "sv [1, 2, 3, 4, 5, 6, 7, 8, 9] 0 = Inr [2, 3, 4, 5, 6, 7, 8, 9]
   \<and> sv [1, 2, 3, 4, 5, 6, 7, 8, 9] 3 = Inr [3, 4, 5, 6, 7, 8, 9]
   \<and> sv [1, 2, 3, 4, 5, 6, 7, 8, 9] 6 = Inr [5, 6, 7, 8, 9]
   \<and> sv [1, 2, 3, 4, 5, 6, 7, 8, 9] 11 = Inr [9]"
  using sv_fixed_width[of 0 1 "[1, 2, 3, 4, 5, 6, 7, 8, 9]"]
    sv_fixed_width[of 3 2 "[1, 2, 3, 4, 5, 6, 7, 8, 9]"]
    sv_fixed_width[of 6 4 "[1, 2, 3, 4, 5, 6, 7, 8, 9]"]
    sv_fixed_width[of 11 8 "[1, 2, 3, 4, 5, 6, 7, 8, 9]"]
  by simp

text \<open>
  C7. A tag that is not a key of \<open>sizes\<close>, not 8 and not 12 is a tag above 12 (13 or
  any larger value), and for such a tag \<open>sv\<close> returns normally and leaves the stream
  as it was: it reads no byte and raises nothing.
\<close>

theorem sv_unknown_tag:
  "(t \<notin> dom sizes \<and> t \<noteq> 8 \<and> t \<noteq> 12) = (12 < t) \<and> (12 < t \<longrightarrow> sv f t = Inr f)"
proof -
  have a: "(t \<notin> dom sizes \<and> t \<noteq> 8 \<and> t \<noteq> 12) = (12 < t)"
    unfolding sizes_dom by simp presburger
  have "sv f t = Inr f" if "12 < t"
    using that a by (intro sv_unknown) (auto simp: domIff)
  with a show ?thesis by blast
qed

theorem sv_unknown_tag_witness:
  "(12::nat) < 13 \<and> sv [1, 2, 3] 13 = Inr [1, 2, 3]"
  using sv_unknown_tag[of 13 "[1, 2, 3]"] by simp

text \<open>
  C10. \<open>sv\<close> and its loop terminate on every stream, tag and count: every argument is in
  the accessible part of the call relation. A recursive call made from \<open>sv f t\<close> is the
  loop on a stream that is exactly 12 bytes shorter than \<open>f\<close>, and \<open>sv\<close> never returns
  a longer stream than it was given.
\<close>

theorem sv_terminates:
  "sv_sv_loop_dom (Inl (f, t)) \<and> sv_sv_loop_dom (Inr (f, at, n))
   \<and> (\<forall>y. sv_sv_loop_rel y (Inl (f, t)) \<longrightarrow>
         (\<exists>g a m. y = Inr (g, a, m) \<and> length g + 12 = length f))
   \<and> (\<forall>g. sv f t = Inr g \<longrightarrow> length g \<le> length f)"
  using sv_dom_all sv_array_call[of _ f t] sv_total_length[of f t]
  by blast

theorem sv_terminates_witness:
  "sv_sv_loop_dom (Inl ([4, 0, 0, 0, 1, 0, 0, 0, 0, 0, 0, 0, 9, 9, 9, 9], 12))
   \<and> sv_sv_loop_rel (Inr ([9, 9, 9, 9], 4, 1))
        (Inl ([4, 0, 0, 0, 1, 0, 0, 0, 0, 0, 0, 0, 9, 9, 9, 9], 12))
   \<and> length [9, 9, 9, 9 :: byte] + 12
        = length [4, 0, 0, 0, 1, 0, 0, 0, 0, 0, 0, 0, 9, 9, 9, 9 :: byte]
   \<and> sv [4, 0, 0, 0, 1, 0, 0, 0, 0, 0, 0, 0, 9, 9, 9, 9] 12 = Inr []"
proof -
  let ?f = "[4, 0, 0, 0, 1, 0, 0, 0, 0, 0, 0, 0, 9, 9, 9, 9] :: stream"
  have r: "sv_sv_loop_rel (Inr ([9, 9, 9, 9], 4, 1)) (Inl (?f, 12))"
    by (rule sv_sv_loop_rel.intros(1)[of 12 ?f
          "([4, 0, 0, 0], [1, 0, 0, 0, 0, 0, 0, 0, 9, 9, 9, 9])"
          "[4, 0, 0, 0]" "[1, 0, 0, 0, 0, 0, 0, 0, 9, 9, 9, 9]" 4
          "([1, 0, 0, 0, 0, 0, 0, 0], [9, 9, 9, 9])" "[1, 0, 0, 0, 0, 0, 0, 0]" "[9, 9, 9, 9]" 1])
       (simp_all add: unpack_I_def unpack_Q_def)
  have s: "sv ?f 12 = Inr []"
    using sv_loop_Suc[of "[9, 9, 9, 9]" 4 0]
    by (simp add: sv_array unpack_I_def unpack_Q_def sv_fixed[of 4 4] sizes_def)
  show ?thesis
    using sv_terminates[of ?f 12 4 1] r s by simp
qed

section \<open>Strings\<close>

text \<open>
  C5. Let \<open>L\<close> be the little-endian value of the first 8 bytes of the stream, let it be
  a size that \<^verbatim>\<open>read\<close> accepts, and let the stream hold at least \<open>L\<close> bytes behind the
  8. Then \<open>rs\<close> returns the decoding of these \<open>L\<close> bytes and the stream behind them;
  \<open>sv\<close> with tag 8 returns that stream; and so does the loop body of the walker when
  the value follows a key and the tag 8: each consumes exactly 8 + L bytes, whatever
  the \<open>L\<close> bytes are. In particular a stream that holds the encoded length of \<open>body\<close>,
  then \<open>body\<close>, then \<open>rest\<close> is left at \<open>rest\<close>.

  The decoder is a total function, and it decodes UTF-8: the encodings of any list of
  code points decode to that list, and the encoding of a code point in front of any
  bytes decodes to the code point and the decoding of the bytes. What is not UTF-8 is
  replaced by U+FFFD and decoding resumes behind the replaced bytes: a byte that
  cannot start a sequence (a continuation byte, C0, C1, F5 and above); a lead byte
  whose next byte is not a continuation byte, or is one that would give an overlong
  form, a surrogate or a code point above U+10FFFF; a sequence whose third or fourth
  byte is not a continuation byte; and a sequence that the end of the data cuts short.
\<close>

theorem rs_consumes:
  assumes "8 + le_nat (take 8 f) \<le> length f" and "le_nat (take 8 f) < 2 ^ 63"
  shows "rs f = Inr (decode (take (le_nat (take 8 f)) (drop 8 f)), drop (8 + le_nat (take 8 f)) f)
         \<and> sv f 8 = Inr (drop (8 + le_nat (take 8 f)) f)
         \<and> length f - length (drop (8 + le_nat (take 8 f)) f) = 8 + le_nat (take 8 f)
         \<and> (rs g = Inr (k, t4 @ f) \<and> unpack_I t4 = Inr 8 \<longrightarrow>
              (\<exists>r. walker_entry g result = Inr (drop (8 + le_nat (take 8 f)) f, r)))
         \<and> (length body < 2 ^ 63 \<longrightarrow>
              rs (le_bytes 8 (length body) @ body @ rest) = Inr (decode body, rest)
              \<and> sv (le_bytes 8 (length body) @ body @ rest) 8 = Inr rest)
         \<and> (\<forall>cps. list_all scalar cps \<longrightarrow> decode (concat (map utf8 cps)) = cps)
         \<and> (\<forall>cp s. scalar cp \<longrightarrow> decode (utf8 cp @ s) = cp # decode s)
         \<and> (\<forall>c s. c < 0x80 \<longrightarrow> decode (c # s) = unat c # decode s)
         \<and> (\<forall>c s. (0x80 \<le> c \<and> c < 0xC2) \<or> 0xF5 \<le> c \<longrightarrow> decode (c # s) = 0xFFFD # decode s)
         \<and> (\<forall>c c2 s. 0xC2 \<le> c \<and> c < 0xF5 \<and> (c2 < 0x80 \<or> 0xC0 \<le> c2) \<longrightarrow>
               decode (c # c2 # s) = 0xFFFD # decode (c2 # s))
         \<and> (\<forall>c2 s. c2 < 0xA0 \<longrightarrow> decode (0xE0 # c2 # s) = 0xFFFD # decode (c2 # s))
         \<and> (\<forall>c2 s. 0xA0 \<le> c2 \<longrightarrow> decode (0xED # c2 # s) = 0xFFFD # decode (c2 # s))
         \<and> (\<forall>c2 s. c2 < 0x90 \<longrightarrow> decode (0xF0 # c2 # s) = 0xFFFD # decode (c2 # s))
         \<and> (\<forall>c2 s. 0x90 \<le> c2 \<longrightarrow> decode (0xF4 # c2 # s) = 0xFFFD # decode (c2 # s))
         \<and> (\<forall>c c2 c3 s. 0xE0 \<le> c \<and> c < 0xF5 \<and> \<not> bad2 c c2 \<and> (c3 < 0x80 \<or> 0xC0 \<le> c3) \<longrightarrow>
               decode (c # c2 # c3 # s) = 0xFFFD # decode (c3 # s))
         \<and> (\<forall>c c2 c3 c4 s. 0xF0 \<le> c \<and> c < 0xF5 \<and> \<not> bad2 c c2 \<and> is_cont c3
                 \<and> (c4 < 0x80 \<or> 0xC0 \<le> c4) \<longrightarrow>
               decode (c # c2 # c3 # c4 # s) = 0xFFFD # decode (c4 # s))
         \<and> (\<forall>c. 0x80 \<le> c \<longrightarrow> decode [c] = [0xFFFD])
         \<and> (\<forall>c c2. 0xE0 \<le> c \<and> c < 0xF5 \<and> \<not> bad2 c c2 \<longrightarrow> decode [c, c2] = [0xFFFD])
         \<and> (\<forall>c c2 c3. 0xF0 \<le> c \<and> c < 0xF5 \<and> \<not> bad2 c c2 \<and> is_cont c3 \<longrightarrow>
               decode [c, c2, c3] = [0xFFFD])"
proof -
  have nc: "\<not> is_cont c" if "c < 0x80 \<or> 0xC0 \<le> c" for c
    using that by (auto simp: is_cont_def word_le_nat_alt word_less_nat_alt)
  have r: "rs f = Inr (decode (take (le_nat (take 8 f)) (drop 8 f)), drop (8 + le_nat (take 8 f)) f)"
    using assms by (simp add: rs_eq)
  have s: "sv f 8 = Inr (drop (8 + le_nat (take 8 f)) f)"
    using assms by (simp add: sv_string_eq)
  have w: "\<exists>r. walker_entry g result = Inr (drop (8 + le_nat (take 8 f)) f, r)"
    if "rs g = Inr (k, t4 @ f)" "unpack_I t4 = Inr 8"
  proof -
    from that(2) have t: "length t4 = 4"
      by (simp add: unpack_I_def split: if_splits)
    with that(2) have u: "unpack_I (take 4 (t4 @ f)) = Inr 8"
      by simp
    show ?thesis
      using walker_entry_string[OF that(1) u, of result] t assms
      by (simp add: unpack_Q_def add.commute)
  qed
  have e: "rs (le_bytes 8 (length body) @ body @ rest) = Inr (decode body, rest)
           \<and> sv (le_bytes 8 (length body) @ body @ rest) 8 = Inr rest" if "length body < 2 ^ 63"
    using rs_encoded[OF that, of rest] skips_encoded[of 8 "String body" rest] that by simp
  have b2: "decode (c # c2 # s) = 0xFFFD # decode (c2 # s)"
    if "0xC2 \<le> c \<and> c < 0xF5 \<and> (c2 < 0x80 \<or> 0xC0 \<le> c2)" for c c2 s
  proof (cases "c < 0xE0")
    case True
    with that nc[of c2] show ?thesis
      by (intro decode_broken_2) auto
  next
    case False
    with that nc[of c2] show ?thesis
      by (intro decode_broken_lead) (auto simp: bad2_def)
  qed
  have o: "decode (0xE0 # c2 # s) = 0xFFFD # decode (c2 # s)" if "c2 < 0xA0" for c2 s
    using that by (intro decode_broken_lead) (simp_all add: bad2_def)
  have o2: "decode (0xED # c2 # s) = 0xFFFD # decode (c2 # s)" if "0xA0 \<le> c2" for c2 s
    using that by (intro decode_broken_lead) (auto simp: bad2_def)
  have o3: "decode (0xF0 # c2 # s) = 0xFFFD # decode (c2 # s)" if "c2 < 0x90" for c2 s
    using that by (intro decode_broken_lead) (simp_all add: bad2_def)
  have o4: "decode (0xF4 # c2 # s) = 0xFFFD # decode (c2 # s)" if "0x90 \<le> c2" for c2 s
    using that by (intro decode_broken_lead) (auto simp: bad2_def)
  have b3: "decode (c # c2 # c3 # s) = 0xFFFD # decode (c3 # s)"
    if "0xE0 \<le> c \<and> c < 0xF5 \<and> \<not> bad2 c c2 \<and> (c3 < 0x80 \<or> 0xC0 \<le> c3)" for c c2 c3 s
    using that nc[of c3] by (intro decode_broken_3) auto
  have b4: "decode (c # c2 # c3 # c4 # s) = 0xFFFD # decode (c4 # s)"
    if "0xF0 \<le> c \<and> c < 0xF5 \<and> \<not> bad2 c c2 \<and> is_cont c3 \<and> (c4 < 0x80 \<or> 0xC0 \<le> c4)"
    for c c2 c3 c4 s
    using that nc[of c4] by (intro decode_broken_4) auto
  have len: "length f - length (drop (8 + le_nat (take 8 f)) f) = 8 + le_nat (take 8 f)"
    using assms(1) by simp
  show ?thesis
    using r s w e len decode_utf8_string decode_utf8 decode_invalid_start b2 o o2 o3 o4 b3 b4
      decode_lone_byte decode_cut_2 decode_cut_3
    by (intro conjI allI impI) (blast | simp)+
qed

theorem rs_consumes_witness:
  "8 + le_nat (take 8 [10, 0, 0, 0, 0, 0, 0, 0, 0xC3, 0xA9, 0xFF, 0xE2, 0x82, 0xAC, 0xF0, 0x9F, 0x98, 0x80, 9])
     \<le> length [10, 0, 0, 0, 0, 0, 0, 0, 0xC3, 0xA9, 0xFF, 0xE2, 0x82, 0xAC, 0xF0, 0x9F, 0x98, 0x80, 9 :: byte]
   \<and> rs [10, 0, 0, 0, 0, 0, 0, 0, 0xC3, 0xA9, 0xFF, 0xE2, 0x82, 0xAC, 0xF0, 0x9F, 0x98, 0x80, 9]
       = Inr ([0xE9, 0xFFFD, 0x20AC, 0x1F600], [9])
   \<and> sv [10, 0, 0, 0, 0, 0, 0, 0, 0xC3, 0xA9, 0xFF, 0xE2, 0x82, 0xAC, 0xF0, 0x9F, 0x98, 0x80, 9] 8
       = Inr [9]
   \<and> list_all scalar [0xE9, 0x20AC, 0x1F600]
   \<and> concat (map utf8 [0xE9, 0x20AC, 0x1F600]) = [0xC3, 0xA9, 0xE2, 0x82, 0xAC, 0xF0, 0x9F, 0x98, 0x80]
   \<and> decode [0xC3, 0xA9, 0xE2, 0x82, 0xAC, 0xF0, 0x9F, 0x98, 0x80] = [0xE9, 0x20AC, 0x1F600]
   \<and> decode [0xE0, 0x80, 0x80] = [0xFFFD, 0xFFFD, 0xFFFD]
   \<and> decode [0xED, 0xA0, 0x80] = [0xFFFD, 0xFFFD, 0xFFFD]
   \<and> decode [0xE2, 0x82, 0x41, 0xF0, 0x9F] = [0xFFFD, 0x41, 0xFFFD]"
proof -
  let ?f = "[10, 0, 0, 0, 0, 0, 0, 0, 0xC3, 0xA9, 0xFF, 0xE2, 0x82, 0xAC, 0xF0, 0x9F, 0x98, 0x80, 9] :: stream"
  have u: "concat (map utf8 [0xE9, 0x20AC, 0x1F600])
             = [0xC3, 0xA9, 0xE2, 0x82, 0xAC, 0xF0, 0x9F, 0x98, 0x80]"
    by (simp add: utf8_def)
  have d: "decode [0xC3, 0xA9, 0xFF, 0xE2, 0x82, 0xAC, 0xF0, 0x9F, 0x98, 0x80]
             = [0xE9, 0xFFFD, 0x20AC, 0x1F600]"
    "decode [0xE0, 0x80, 0x80] = [0xFFFD, 0xFFFD, 0xFFFD]"
    "decode [0xED, 0xA0, 0x80] = [0xFFFD, 0xFFFD, 0xFFFD]"
    "decode [0xE2, 0x82, 0x41, 0xF0, 0x9F] = [0xFFFD, 0x41, 0xFFFD]"
    by (simp_all add: is_cont_def bad2_def)
  have s: "list_all scalar [0xE9, 0x20AC, 0x1F600]"
    by (simp add: scalar_def)
  have p: "8 + le_nat (take 8 ?f) \<le> length ?f" "le_nat (take 8 ?f) < 2 ^ 63"
    by simp_all
  note t = rs_consumes[OF p, of "[]" "[]" "[]" "[]" "[]" "[]"]
  have r: "rs ?f = Inr (decode (take (le_nat (take 8 ?f)) (drop 8 ?f)),
                       drop (8 + le_nat (take 8 ?f)) ?f)"
    using t by (rule conjunct1)
  have v: "sv ?f 8 = Inr (drop (8 + le_nat (take 8 ?f)) ?f)"
    using t[THEN conjunct2] by (rule conjunct1)
  have "\<forall>cps. list_all scalar cps \<longrightarrow> decode (concat (map utf8 cps)) = cps"
    using t[THEN conjunct2, THEN conjunct2, THEN conjunct2, THEN conjunct2, THEN conjunct2]
    by (rule conjunct1)
  then have "decode (concat (map utf8 [0xE9, 0x20AC, 0x1F600])) = [0xE9, 0x20AC, 0x1F600]"
    using s by blast
  then have rt: "decode [0xC3, 0xA9, 0xE2, 0x82, 0xAC, 0xF0, 0x9F, 0x98, 0x80] = [0xE9, 0x20AC, 0x1F600]"
    by (simp only: u)
  have r': "rs ?f = Inr ([0xE9, 0xFFFD, 0x20AC, 0x1F600], [9])"
    using r d(1) by simp
  have v': "sv ?f 8 = Inr [9]"
    using v by simp
  show ?thesis
    using p r' v' s u rt d by simp
qed

section \<open>The walker and its output\<close>

text \<open>
  C8. The walker takes the first 16 bytes as they are (the result does not depend on
  them) and the next 8 bytes as the count, and continues with the loop on the stream
  behind these 24 bytes. The loop with count \<open>n\<close> is the \<open>n\<close>-fold repetition of the
  loop body. On a file that holds 16 bytes, the count of its entries and then
  well-formed entries, the walker returns what the entries contribute, in their order,
  and ends exactly behind the last entry: what follows is returned unread.
\<close>

theorem walker_consumes:
  "(length hdr = 16 \<and> length c = 8 \<longrightarrow> walker (hdr @ c @ f) = walker_loop f [] (le_nat c))
   \<and> walker_loop f r n
       = ((\<lambda>x. case x of Inl e \<Rightarrow> Inl e | Inr (g, q) \<Rightarrow> walker_entry g q) ^^ n) (Inr (f, r))
   \<and> (length hdr = 16 \<and> length es < 2 ^ 64 \<and> list_all entry_ok es \<longrightarrow>
        walker (hdr @ le_bytes 8 (length es) @ concat (map encode_entry es) @ f)
          = Inr (f, concat (map capture es)))"
  using walker_header[of hdr c f] walker_loop_funpow[of f r n] walker_encoded[of hdr es f]
  by blast

theorem walker_consumes_witness:
  "list_all entry_ok scenario
   \<and> walker (replicate 16 0 @ le_bytes 8 3 @ concat (map encode_entry scenario) @ [0xAA, 0xBB])
       = Inr ([0xAA, 0xBB],
              [str ''[tokenizer.ggml.model]'' @ [10] @ str ''gpt2'',
               str ''[some.chat_template]'' @ [10] @ str ''{{messages}}''])"
proof -
  have a: "list_all entry_ok scenario" and l: "length scenario = 3"
    by (simp_all add: scenario_def bytes_def)
  have c: "concat (map capture scenario)
             = [str ''[tokenizer.ggml.model]'' @ [10] @ str ''gpt2'',
                str ''[some.chat_template]'' @ [10] @ str ''{{messages}}'']"
    by (simp add: scenario_def bytes_def str_def sublist_code)
  show ?thesis
    using walker_consumes[of "replicate 16 0" "[]" "[0xAA, 0xBB]" "[]" 0 scenario] a l c
    by simp
qed

text \<open>
  C1. Let one pass of the loop body read the key \<open>k\<close> and the tag \<open>t\<close> and complete.
  The list \<^verbatim>\<open>result\<close> afterwards is the list before with one block appended if \<open>t\<close>
  is 8 and \<open>k\<close> contains \<^verbatim>\<open>chat_template\<close> or \<^verbatim>\<open>tokenizer.ggml.model\<close>, and the list
  before otherwise; so a block is appended if and only if that condition holds. The
  block is \<^verbatim>\<open>[\<close>, the key, \<^verbatim>\<open>]\<close>, a newline, and the decoded value: the bytes behind the
  8-byte length that follows the tag.
\<close>

theorem walker_entry_appends:
  assumes "rs f = Inr (k, f1)" and "unpack_I (take 4 f1) = Inr t"
    and "walker_entry f result = Inr (g, result')"
  shows "result' =
           (if t = 8 \<and> (sublist (str ''chat_template'') k \<or> sublist (str ''tokenizer.ggml.model'') k)
            then result @ [str ''['' @ k @ str '']'' @ [10]
                             @ decode (take (le_nat (take 8 (drop 4 f1))) (drop 12 f1))]
            else result)
         \<and> ((\<exists>b. result' = result @ [b])
              = (t = 8 \<and> (sublist (str ''chat_template'') k \<or> sublist (str ''tokenizer.ggml.model'') k)))"
proof (cases "t = 8")
  case True
  from assms(3) walker_entry_string[OF assms(1) assms(2)[unfolded True], of result]
  show ?thesis
    using True by (auto simp: unpack_Q_def split: if_splits)
next
  case False
  from assms(3) walker_entry_other[OF assms(1) assms(2) False, of result]
  show ?thesis
    using False by (auto split: sum.splits)
qed

theorem walker_entry_appends_witness:
  "rs (le_bytes 8 18 @ bytes ''some.chat_template'' @ le_bytes 4 8 @ le_bytes 8 12
         @ bytes ''{{messages}}'' @ [0xAA])
     = Inr (str ''some.chat_template'', le_bytes 4 8 @ le_bytes 8 12 @ bytes ''{{messages}}'' @ [0xAA])
   \<and> unpack_I (take 4 (le_bytes 4 8 @ le_bytes 8 12 @ bytes ''{{messages}}'' @ [0xAA])) = Inr 8
   \<and> walker_entry (le_bytes 8 18 @ bytes ''some.chat_template'' @ le_bytes 4 8 @ le_bytes 8 12
         @ bytes ''{{messages}}'' @ [0xAA]) []
     = Inr ([0xAA], [str ''[some.chat_template]'' @ [10] @ str ''{{messages}}''])"
proof -
  let ?f1 = "le_bytes 4 8 @ le_bytes 8 12 @ bytes ''{{messages}}'' @ [0xAA]"
  let ?f = "le_bytes 8 18 @ bytes ''some.chat_template'' @ ?f1"
  have a: "rs ?f = Inr (str ''some.chat_template'', ?f1)"
    by (simp add: rs_def read_def unpack_Q_def le_bytes_eval bytes_def str_def)
  have b: "unpack_I (take 4 ?f1) = Inr 8"
    by (simp add: unpack_I_def le_bytes_eval)
  have c: "walker_entry ?f [] = Inr ([0xAA], [str ''[some.chat_template]'' @ [10] @ str ''{{messages}}''])"
    unfolding walker_entry_string[OF a b]
    by (simp add: unpack_Q_def le_bytes_eval bytes_def str_def sublist_code)
  show ?thesis
    using walker_entry_appends[OF a b c] a b c by simp
qed

text \<open>
  C9. On a string entry whose key contains neither marker (key and value of a size
  that \<^verbatim>\<open>read\<close> accepts) the loop body ends right behind the value (8 + L bytes
  behind the tag) with \<^verbatim>\<open>result\<close> unchanged. For every
  tag other than 8 the loop body is the call of \<open>sv\<close> with \<^verbatim>\<open>result\<close> passed through
  unchanged (\<open>sv\<close> takes and returns the stream only). If a pass of the loop body changes
  \<^verbatim>\<open>result\<close>, its tag was 8, its key contains a marker and one block was appended; and
  the loop only ever extends \<^verbatim>\<open>result\<close>.
\<close>

theorem skip_leaves_result:
  "(length k < 2 ^ 63 \<and> length body < 2 ^ 63
      \<and> \<not> sublist (str ''chat_template'') (decode k)
      \<and> \<not> sublist (str ''tokenizer.ggml.model'') (decode k) \<longrightarrow>
      walker_entry (le_bytes 8 (length k) @ k @ le_bytes 4 8
                      @ le_bytes 8 (length body) @ body @ rest) result
        = Inr (rest, result))
   \<and> (rs f = Inr (key, f1) \<and> unpack_I (take 4 f1) = Inr t \<and> t \<noteq> 8 \<longrightarrow>
        walker_entry f result
          = (case sv (drop 4 f1) t of Inl e \<Rightarrow> Inl e | Inr g \<Rightarrow> Inr (g, result)))
   \<and> (walker_entry f result = Inr (g, result') \<and> result' \<noteq> result \<longrightarrow>
        (\<exists>k f1. rs f = Inr (k, f1) \<and> unpack_I (take 4 f1) = Inr 8
           \<and> (sublist (str ''chat_template'') k \<or> sublist (str ''tokenizer.ggml.model'') k)
           \<and> (\<exists>b. result' = result @ [b])))
   \<and> (walker_loop f result n = Inr (g, result') \<longrightarrow> prefix result result')"
proof -
  have a: "walker_entry (le_bytes 8 (length k) @ k @ le_bytes 4 8
                      @ le_bytes 8 (length body) @ body @ rest) result
        = Inr (rest, result)"
    if "length k < 2 ^ 63" "length body < 2 ^ 63"
      "\<not> sublist (str ''chat_template'') (decode k)"
      "\<not> sublist (str ''tokenizer.ggml.model'') (decode k)"
    using walker_entry_encoded[of "(k, 8, String body)" rest result] that by simp
  show ?thesis
    using a walker_entry_other[of f key f1 t result] walker_entry_changes[of f result g result']
      walker_loop_prefix[of f result n g result']
    by blast
qed

theorem skip_leaves_result_witness:
  "length (bytes ''general.architecture'') < 2 ^ 63 \<and> length (bytes ''qwen3'') < 2 ^ 63
   \<and> \<not> sublist (str ''chat_template'') (decode (bytes ''general.architecture''))
   \<and> \<not> sublist (str ''tokenizer.ggml.model'') (decode (bytes ''general.architecture''))
   \<and> walker_entry (le_bytes 8 20 @ bytes ''general.architecture'' @ le_bytes 4 8
                     @ le_bytes 8 5 @ bytes ''qwen3'' @ [0xAA]) [[1]]
       = Inr ([0xAA], [[1]])"
proof -
  have l: "length (bytes ''general.architecture'') = 20" "length (bytes ''qwen3'') = 5"
    by (simp_all add: bytes_def)
  have d: "decode (bytes ''general.architecture'') = str ''general.architecture''"
    by (simp add: bytes_def str_def)
  have s: "\<not> sublist (str ''chat_template'') (str ''general.architecture'')"
    "\<not> sublist (str ''tokenizer.ggml.model'') (str ''general.architecture'')"
    by (simp_all add: str_def sublist_code)
  show ?thesis
    using skip_leaves_result[of "bytes ''general.architecture''" "bytes ''qwen3''" "[0xAA]" "[[1]]"
        "[]" "[]" "[]" 0 "[]" "[]" 0] l d s
    by simp
qed

section \<open>Truncated input\<close>




end
